theory Spec2Isabelle
  imports Main
begin

section \<open>The reactive model of \<open>src/model.js\<close>\<close>

text \<open>
  The library keeps two plain objects, \<open>values\<close> and \<open>callbacks\<close>, and lets a caller
  register reactions with \<open>when\<close>. Every listener it ever stores is a function returned
  by \<open>debounce\<close>, whose only shared mutable variable is its \<open>queued\<close> flag, and whose
  deferred part runs from the host's timer queue.

  The embedding is a state-passing one. The state holds the own properties of the two
  objects, the store of the closures made by \<open>debounce\<close>, the host's queue of pending
  \<open>setTimeout(f, 0)\<close> tasks, and a log of the calls of user callbacks. A JavaScript
  exception is a completion value next to the state it leaves behind, since the
  mutations done before a throw stay.
\<close>

subsection \<open>Values\<close>

text \<open>
  The values are dynamically typed. The library itself inspects a value only to see
  whether it is \<open>undefined\<close> or \<open>null\<close>, but the engine inspects one more: the value
  assigned to \<open>__proto__\<close>. A plain data object \<open>Obj ps p\<close> is given by its own data
  properties \<open>ps\<close>, each with its value and its writable attribute (false after
  \<open>Object.freeze\<close>), and by its prototype \<open>p\<close>. \<open>ObjectPrototype\<close> is the object
  \<open>Object.prototype\<close>, \<open>Builtin n\<close> the function it holds under the name \<open>n\<close>, and
  \<open>Ref a\<close> any other object (a function, an array, a host object), by address.
\<close>

datatype jsval =
    Undefined | Null | Bool bool | Num int | Str string
  | Builtin string | ObjectPrototype | Ref nat
  | Obj "(string \<times> jsval \<times> bool) list" jsval

text \<open>
  How a call ends: normally, with the \<open>TypeError\<close> that the engine raises when a value
  that is not a function is called, or with an exception thrown by user code.
\<close>

datatype completion = Normal | TypeError | Thrown

text \<open>
  Both \<open>values\<close> and \<open>callbacks\<close> are created by the literal \<open>{}\<close>, so a read
  \<open>o[key]\<close> that finds no own property goes on to the prototype, which at first is
  \<open>Object.prototype\<close>. These are the names of its properties: the seven functions of
  the language core, the four legacy functions and the accessor \<open>__proto__\<close>. The
  functions are writable data properties.
\<close>

definition objectPrototype :: "string list" where
  "objectPrototype =
     [''constructor'', ''toString'', ''toLocaleString'', ''valueOf'',
      ''hasOwnProperty'', ''isPrototypeOf'', ''propertyIsEnumerable'',
      ''__defineGetter__'', ''__defineSetter__'', ''__lookupGetter__'', ''__lookupSetter__'',
      ''__proto__'']"

text \<open>
  What the search for a property finds along a chain of prototypes: nothing, a data
  property (its value and whether it is writable), or the accessor \<open>__proto__\<close> of
  \<open>Object.prototype\<close>. An own property of a plain object hides what lies behind it.
  Only plain data objects are described: what a function or an object given by address
  holds is not, and a search that reaches one finds nothing.
\<close>

datatype found = NotFound | Data jsval bool | ProtoAccessor

fun find_prop :: "jsval \<Rightarrow> string \<Rightarrow> found" where
  "find_prop (Obj ps p) key =
     (case map_of ps key of
        Some (v, writable) \<Rightarrow> Data v writable
      | None \<Rightarrow> find_prop p key)"
| "find_prop ObjectPrototype key =
     (if key = ''__proto__'' then ProtoAccessor
      else if key \<in> set objectPrototype then Data (Builtin key) True
      else NotFound)"
| "find_prop v key = NotFound"

text \<open>\<open>Type(v) is Object\<close>, the test of the setter of \<open>__proto__\<close>.\<close>

fun is_object :: "jsval \<Rightarrow> bool" where
  "is_object (Obj ps p) = True"
| "is_object ObjectPrototype = True"
| "is_object (Builtin n) = True"
| "is_object (Ref a) = True"
| "is_object v = False"

subsection \<open>Arguments and user callbacks\<close>

text \<open>
  \<open>set\<close> tests \<open>typeof keyOrObject === 'string'\<close>; an object argument is given by its
  own enumerable properties in the order of \<open>Object.keys\<close>. \<open>when\<close> tests
  \<open>dependencies instanceof Array\<close>.
\<close>

datatype setarg = Key string | Object "(string \<times> jsval) list"

datatype deparg = Name string | Array "string list"

text \<open>
  A user callback is a function of its receiver and its arguments. What it does to the
  model is the sequence of calls of the public API it makes, each depending on what the
  calls before returned or raised (a callback may catch the exception of a call and go
  on); it ends by returning or by letting an exception escape.
\<close>

datatype prog =
    End completion
  | CallSet setarg jsval "completion \<Rightarrow> prog"
  | CallGet string "jsval \<Rightarrow> prog"
  | CallWhen deparg "jsval \<Rightarrow> jsval list \<Rightarrow> prog" jsval "completion \<Rightarrow> prog"

abbreviation Return :: prog where
  "Return \<equiv> End Normal"

type_synonym fn = "jsval \<Rightarrow> jsval list \<Rightarrow> prog"

subsection \<open>State\<close>

text \<open>
  One record per call of \<open>debounce\<close>: the variables captured by the function it wraps
  (\<open>dependencies\<close>, \<open>fn\<close>, \<open>thisArg\<close> of the enclosing \<open>when\<close>) and its own \<open>queued\<close>.
  The caller is taken not to change the array of dependencies after the call. A listener
  or a timer task is the address of its closure.
\<close>

record closure =
  dependencies :: "string list"
  fn :: fn
  thisArg :: jsval
  queued :: bool

record world =
  values' :: "string \<rightharpoonup> jsval"
  vproto :: jsval
  callbacks :: "string \<rightharpoonup> nat list"
  closures :: "nat \<Rightarrow> closure"
  nclosures :: nat
  timers :: "nat list"
  calls :: "(nat \<times> jsval \<times> jsval list) list"

definition Model :: world where
  "Model =
     \<lparr>values' = Map.empty, vproto = ObjectPrototype, callbacks = Map.empty,
      closures = (\<lambda>_. \<lparr>dependencies = [], fn = (\<lambda>_ _. Return), thisArg = Undefined, queued = False\<rparr>),
      nclosures = 0, timers = [], calls = []\<rparr>"

text \<open>
  The read \<open>values[key]\<close>: the own property, or what the chain of prototypes of
  \<open>values\<close> holds. The getter of \<open>__proto__\<close> returns the prototype of the object that
  is read, here \<open>values\<close>.
\<close>

definition values_at :: "world \<Rightarrow> string \<Rightarrow> jsval" where
  "values_at w key =
     (case values' w key of
        Some v \<Rightarrow> v
      | None \<Rightarrow>
          (case find_prop (vproto w) key of
             Data v writable \<Rightarrow> v
           | ProtoAccessor \<Rightarrow> vproto w
           | NotFound \<Rightarrow> Undefined))"

text \<open>
  The assignment \<open>values[key] = v\<close>, in code that is not strict. An own property is
  updated. Otherwise the chain decides: where it holds nothing or a writable data
  property, \<open>values\<close> gets a new own property; where it holds a data property that is
  not writable, the assignment is dropped without an error; where it reaches the
  accessor \<open>__proto__\<close>, the setter makes an object or \<open>null\<close> the new prototype of
  \<open>values\<close> and ignores any other value. (\<open>values\<close> is never handed out, so the new
  prototype cannot close a cycle.)
\<close>

definition store :: "string \<Rightarrow> jsval \<Rightarrow> world \<Rightarrow> world" where
  "store key v w =
     (case values' w key of
        Some old \<Rightarrow> w\<lparr>values' := (values' w)(key \<mapsto> v)\<rparr>
      | None \<Rightarrow>
          (case find_prop (vproto w) key of
             NotFound \<Rightarrow> w\<lparr>values' := (values' w)(key \<mapsto> v)\<rparr>
           | Data old writable \<Rightarrow>
               if writable then w\<lparr>values' := (values' w)(key \<mapsto> v)\<rparr> else w
           | ProtoAccessor \<Rightarrow>
               if is_object v \<or> v = Null then w\<lparr>vproto := v\<rparr> else w))"


text \<open>
  The read \<open>callbacks[key]\<close>: an array of listeners, something inherited from
  \<open>Object.prototype\<close> (a function, or under \<open>__proto__\<close> that object itself: truthy, and
  with neither \<open>push\<close> nor \<open>forEach\<close>), or \<open>undefined\<close>. The library assigns to
  \<open>callbacks[key]\<close> only where this read is falsy, so the prototype of \<open>callbacks\<close>
  never changes.
\<close>

datatype slot = Listeners "nat list" | Inherited | Missing

definition callbacks_at :: "world \<Rightarrow> string \<Rightarrow> slot" where
  "callbacks_at w key =
     (case callbacks w key of
        Some ls \<Rightarrow> Listeners ls
      | None \<Rightarrow> if key \<in> set objectPrototype then Inherited else Missing)"

text \<open>\<open>Array.prototype.forEach\<close> with a body that may throw: the first exception ends the loop.\<close>

fun forEach :: "('a \<Rightarrow> world \<Rightarrow> completion \<times> world) \<Rightarrow> 'a list \<Rightarrow> world \<Rightarrow> completion \<times> world" where
  "forEach f [] w = (Normal, w)"
| "forEach f (x # xs) w =
     (case f x w of
        (Normal, w') \<Rightarrow> forEach f xs w'
      | (c, w') \<Rightarrow> (c, w'))"

subsection \<open>debounce\<close>

definition setQueued :: "nat \<Rightarrow> bool \<Rightarrow> world \<Rightarrow> world" where
  "setQueued i b w = w\<lparr>closures := (closures w)(i := (closures w i)\<lparr>queued := b\<rparr>)\<rparr>"

text \<open>
  \<open>debounce(func)\<close>: a fresh closure with \<open>queued = false\<close>; its address is returned.
  The only call of \<open>debounce\<close> is the one in \<open>when\<close>, on a function literal; that
  argument is given by the variables the literal captures.
\<close>

definition debounce :: "string list \<Rightarrow> fn \<Rightarrow> jsval \<Rightarrow> world \<Rightarrow> nat \<times> world" where
  "debounce ds f t w =
     (nclosures w,
      w\<lparr>closures := (closures w)(nclosures w :=
           \<lparr>dependencies = ds, fn = f, thisArg = t, queued = False\<rparr>),
        nclosures := Suc (nclosures w)\<rparr>)"

text \<open>The function returned by \<open>debounce\<close>; \<open>setTimeout\<close> appends to the host's queue.\<close>

definition debounced :: "nat \<Rightarrow> world \<Rightarrow> world" where
  "debounced i w =
     (if \<not> queued (closures w i)
      then (setQueued i True w)\<lparr>timers := timers w @ [i]\<rparr>
      else w)"

text \<open>The function handed to \<open>setTimeout\<close>: \<open>queued = false; func();\<close>\<close>

definition timeoutFn :: "(world \<Rightarrow> completion \<times> world) \<Rightarrow> nat \<Rightarrow> world \<Rightarrow> completion \<times> world" where
  "timeoutFn func i w = func (setQueued i False w)"

subsection \<open>on, set, get\<close>

definition on :: "string \<Rightarrow> nat \<Rightarrow> world \<Rightarrow> completion \<times> world" where
  "on key callback w =
     (let w1 = (case callbacks_at w key of
                  Missing \<Rightarrow> w\<lparr>callbacks := (callbacks w)(key \<mapsto> [])\<rparr>
                | _ \<Rightarrow> w)
      in case callbacks_at w1 key of
           Listeners ls \<Rightarrow> (Normal, w1\<lparr>callbacks := (callbacks w1)(key \<mapsto> ls @ [callback])\<rparr>)
         | _ \<Rightarrow> (TypeError, w1))"

definition setKeyValue :: "string \<Rightarrow> jsval \<Rightarrow> world \<Rightarrow> completion \<times> world" where
  "setKeyValue key v w =
     (let w1 = store key v w
      in case callbacks_at w1 key of
           Listeners ls \<Rightarrow> (Normal, fold debounced ls w1)
         | Inherited \<Rightarrow> (TypeError, w1)
         | Missing \<Rightarrow> (Normal, w1))"

text \<open>\<open>object[key]\<close> for a key taken from \<open>Object.keys(object)\<close>.\<close>

definition object_at :: "(string \<times> jsval) list \<Rightarrow> string \<Rightarrow> jsval" where
  "object_at object key = (case map_of object key of Some v \<Rightarrow> v | None \<Rightarrow> Undefined)"

definition setObject :: "(string \<times> jsval) list \<Rightarrow> world \<Rightarrow> completion \<times> world" where
  "setObject object w =
     forEach (\<lambda>key. setKeyValue key (object_at object key)) (map fst object) w"

definition set' :: "setarg \<Rightarrow> jsval \<Rightarrow> world \<Rightarrow> completion \<times> world" where
  "set' keyOrObject v w =
     (case keyOrObject of
        Key key \<Rightarrow> setKeyValue key v w
      | Object object \<Rightarrow> setObject object w)"

definition get :: "string \<Rightarrow> world \<Rightarrow> jsval" where
  "get key w = values_at w key"

subsection \<open>when\<close>

text \<open>\<open>if(!(dependencies instanceof Array)) dependencies = [dependencies];\<close>\<close>

definition normalize :: "deparg \<Rightarrow> string list" where
  "normalize d = (case d of Array xs \<Rightarrow> xs | Name x \<Rightarrow> [x])"

definition when' :: "deparg \<Rightarrow> fn \<Rightarrow> jsval \<Rightarrow> world \<Rightarrow> completion \<times> world" where
  "when' d f t w =
     (let ds = normalize d;
          (callFn, w1) = debounce ds f t w;
          w2 = debounced callFn w1
      in forEach (\<lambda>property. on property callFn) ds w2)"

text \<open>A user callback runs its API calls in order.\<close>

primrec exec :: "prog \<Rightarrow> world \<Rightarrow> completion \<times> world" where
  "exec (End c) w = (c, w)"
| "exec (CallSet a v p) w = (case set' a v w of (c, w') \<Rightarrow> exec (p c) w')"
| "exec (CallGet k p) w = exec (p (get k w)) w"
| "exec (CallWhen d f t p) w = (case when' d f t w of (c, w') \<Rightarrow> exec (p c) w')"

definition allAreDefined :: "jsval list \<Rightarrow> bool" where
  "allAreDefined arr =
     fold (\<lambda>d allDefined. if d = Undefined \<or> d = Null then False else allDefined) arr True"

text \<open>
  The function wrapped by \<open>debounce\<close> in \<open>when\<close>. The call \<open>fn.apply(thisArg, args)\<close>
  is logged with the address of the closure, the receiver and the arguments.
\<close>

definition resolver :: "nat \<Rightarrow> world \<Rightarrow> completion \<times> world" where
  "resolver i w =
     (let c = closures w i;
          args = map (values_at w) (dependencies c)
      in if allAreDefined args
         then exec (fn c (thisArg c) args) (w\<lparr>calls := calls w @ [(i, thisArg c, args)]\<rparr>)
         else (Normal, w))"

subsection \<open>The host\<close>

text \<open>
  One turn of the event loop runs the oldest pending timer task: timers set with the
  same delay fire in the order in which they were set. An exception that escapes the
  task is reported by the host and the loop goes on.
\<close>

definition tick :: "world \<Rightarrow> world" where
  "tick w =
     (case timers w of
        [] \<Rightarrow> w
      | i # rest \<Rightarrow> snd (timeoutFn (resolver i) i (w\<lparr>timers := rest\<rparr>)))"

text \<open>
  What a program can do with one model: call its API, or give control back to the host.
  A call that throws leaves its state behind; the program may catch the exception and
  go on.
\<close>

datatype op = Set setarg jsval | Get string | When deparg fn jsval | Tick

fun step :: "op \<Rightarrow> world \<Rightarrow> world" where
  "step (Set a v) w = snd (set' a v w)"
| "step (Get k) w = w"
| "step (When d f t) w = snd (when' d f t w)"
| "step Tick w = tick w"

definition run :: "op list \<Rightarrow> world \<Rightarrow> world" where
  "run ops w = fold step ops w"

text \<open>The listeners registered for a key: the own array of \<open>callbacks\<close>, if there is one.\<close>

definition listeners :: "world \<Rightarrow> string \<Rightarrow> nat list" where
  "listeners w key = (case callbacks w key of Some ls \<Rightarrow> ls | None \<Rightarrow> [])"

subsection \<open>Reachable states and their invariants\<close>

inductive reachable :: "world \<Rightarrow> bool" where
  reachable_Model: "reachable Model"
| reachable_step: "reachable w \<Longrightarrow> reachable (step x w)"

text \<open>No array of listeners is empty.\<close>

definition registry_ok :: "world \<Rightarrow> bool" where
  "registry_ok w \<longleftrightarrow> (\<forall>k ls. callbacks w k = Some ls \<longrightarrow> ls \<noteq> [])"

text \<open>Every address held by a listener array, the timer queue or the log is allocated.\<close>

definition alloc_ok :: "world \<Rightarrow> bool" where
  "alloc_ok w \<longleftrightarrow>
     (\<forall>k ls. callbacks w k = Some ls \<longrightarrow> (\<forall>i\<in>set ls. i < nclosures w)) \<and>
     (\<forall>i\<in>set (timers w). i < nclosures w) \<and>
     (\<forall>c\<in>set (calls w). fst c < nclosures w)"

text \<open>A closure has one pending timer task when its flag is set, and none otherwise.\<close>

definition pending_ok :: "world \<Rightarrow> bool" where
  "pending_ok w \<longleftrightarrow>
     (\<forall>i. count_list (timers w) i = (if queued (closures w i) then 1 else 0))"

definition heap_ok :: "world \<Rightarrow> bool" where
  "heap_ok w \<longleftrightarrow> alloc_ok w \<and> pending_ok w"

text \<open>The listener arrays of \<open>u\<close> extend those of \<open>w\<close> at their ends.\<close>

definition extends :: "world \<Rightarrow> world \<Rightarrow> bool" where
  "extends w u \<longleftrightarrow> (\<forall>k. \<exists>ys. listeners u k = listeners w k @ ys)"

text \<open>The tasks that the next \<open>n\<close> turns of the event loop run, oldest first.\<close>

fun tasks_run :: "nat \<Rightarrow> world \<Rightarrow> nat list" where
  "tasks_run 0 w = []"
| "tasks_run (Suc n) w = (case timers w of [] \<Rightarrow> [] | i # rest \<Rightarrow> i # tasks_run n (tick w))"

text \<open>The timer queue of \<open>u\<close> starts with \<open>ts\<close>.\<close>

definition queue_extends :: "nat list \<Rightarrow> world \<Rightarrow> bool" where
  "queue_extends ts u \<longleftrightarrow> (\<exists>ys. timers u = ts @ ys)"

text \<open>The logged calls of the callback of closure \<open>i\<close>.\<close>

definition calls_of :: "nat \<Rightarrow> world \<Rightarrow> (nat \<times> jsval \<times> jsval list) list" where
  "calls_of i u = filter (\<lambda>c. fst c = i) (calls u)"



text \<open>A callback that changes nothing of the model: it calls neither \<open>set\<close> nor \<open>when\<close>.\<close>

definition silent :: "fn \<Rightarrow> bool" where
  "silent f \<longleftrightarrow> (\<forall>th args u. snd (exec (f th args) u) = u)"

definition all_silent :: "world \<Rightarrow> bool" where
  "all_silent u \<longleftrightarrow> (\<forall>j. silent (fn (closures u j)))"

text \<open>The call that the task of closure \<open>j\<close> makes when it runs in \<open>u\<close>, if it makes one.\<close>

definition fire :: "world \<Rightarrow> nat \<Rightarrow> (nat \<times> jsval \<times> jsval list) list" where
  "fire u j =
     (let c = closures u j; args = map (values_at u) (dependencies c)
      in if allAreDefined args then [(j, thisArg c, args)] else [])"

text \<open>Same values and same captured variables; only flags, queue and log may differ.\<close>

definition same_env :: "world \<Rightarrow> world \<Rightarrow> bool" where
  "same_env u u' \<longleftrightarrow> values' u' = values' u \<and> vproto u' = vproto u \<and>
     (\<forall>j. dependencies (closures u' j) = dependencies (closures u j)
        \<and> fn (closures u' j) = fn (closures u j)
        \<and> thisArg (closures u' j) = thisArg (closures u j))"

section \<open>Basic facts\<close>

lemma values_setQueued [simp]: "values' (setQueued i b w) = values' w"
  by (simp add: setQueued_def)

lemma values_debounced [simp]: "values' (debounced i w) = values' w"
  by (simp add: debounced_def)

lemma values_fold_debounced [simp]: "values' (fold debounced ls w) = values' w"
  by (induction ls arbitrary: w) simp_all

lemma callbacks_debounced [simp]: "callbacks (debounced i w) = callbacks w"
  by (simp add: debounced_def setQueued_def)

lemma callbacks_fold_debounced [simp]: "callbacks (fold debounced ls w) = callbacks w"
  by (induction ls arbitrary: w) simp_all

text \<open>The assignment touches only the own properties and the prototype of \<open>values\<close>.\<close>

lemma callbacks_store [simp]: "callbacks (store k v w) = callbacks w"
  by (simp add: store_def split: option.splits found.splits)

lemma closures_store [simp]: "closures (store k v w) = closures w"
  by (simp add: store_def split: option.splits found.splits)

lemma nclosures_store [simp]: "nclosures (store k v w) = nclosures w"
  by (simp add: store_def split: option.splits found.splits)

lemma timers_store [simp]: "timers (store k v w) = timers w"
  by (simp add: store_def split: option.splits found.splits)

lemma calls_store [simp]: "calls (store k v w) = calls w"
  by (simp add: store_def split: option.splits found.splits)

lemmas store_simps = callbacks_store closures_store nclosures_store timers_store calls_store

lemma vproto_setQueued [simp]: "vproto (setQueued i b w) = vproto w"
  by (simp add: setQueued_def)

lemma vproto_debounced [simp]: "vproto (debounced i w) = vproto w"
  by (simp add: debounced_def)

lemma vproto_fold_debounced [simp]: "vproto (fold debounced ls w) = vproto w"
  by (induction ls arbitrary: w) simp_all

lemma callbacks_at_store [simp]: "callbacks_at (store k v w) = callbacks_at w"
  by (simp add: callbacks_at_def fun_eq_iff)

lemma setKeyValue_state:
  "snd (setKeyValue key v w) = fold debounced (listeners w key) (store key v w)"
  by (simp add: setKeyValue_def callbacks_at_def listeners_def Let_def
      split: option.splits)

text \<open>
  Where \<open>values\<close> still has its first prototype, every name but \<open>__proto__\<close> is stored
  as an own property.
\<close>

lemma store_plain:
  "vproto w = ObjectPrototype \<Longrightarrow> k \<noteq> ''__proto__'' \<Longrightarrow>
     store k v w = w\<lparr>values' := (values' w)(k \<mapsto> v)\<rparr>"
  by (simp add: store_def split: option.splits)

lemma store_own:
  "values' w k \<noteq> None \<Longrightarrow> store k v w = w\<lparr>values' := (values' w)(k \<mapsto> v)\<rparr>"
  by (auto simp: store_def split: option.splits)

lemma values_at_cong:
  assumes "values' u = values' w" and "vproto u = vproto w"
  shows "values_at u = values_at w"
  unfolding values_at_def assms ..

section \<open>Invariants\<close>

lemma forEach_preserves:
  assumes "\<And>x u. P u \<Longrightarrow> P (snd (f x u))"
  shows "P w \<Longrightarrow> P (snd (forEach f xs w))"
proof (induction xs arbitrary: w)
  case Nil
  then show ?case by simp
next
  case (Cons x xs)
  obtain c u where fx: "f x w = (c, u)" by (cases "f x w")
  have "P u" using assms [OF Cons.prems, of x] fx by simp
  then show ?case using Cons.IH [of u] fx by (cases c) simp_all
qed

lemma fold_preserves:
  assumes "\<And>x u. x \<in> set xs \<Longrightarrow> P u \<Longrightarrow> P (g x u)"
  shows "P w \<Longrightarrow> P (fold g xs w)"
  using assms by (induction xs arbitrary: w) simp_all

lemma exec_preserves:
  assumes s: "\<And>a v u. P u \<Longrightarrow> P (snd (set' a v u))"
    and n: "\<And>d f t u. P u \<Longrightarrow> P (snd (when' d f t u))"
  shows "P w \<Longrightarrow> P (snd (exec p w))"
proof (induction p arbitrary: w)
  case (End c)
  then show ?case by simp
next
  case (CallSet a v p)
  obtain c u where r: "set' a v w = (c, u)" by (cases "set' a v w")
  have "P u" using s [OF CallSet.prems, of a v] r by simp
  then have "P (snd (exec (p c) u))" by (rule CallSet.IH [OF rangeI])
  then show ?case using r by simp
next
  case (CallGet k p)
  show ?case using CallGet.IH [OF rangeI CallGet.prems] by simp
next
  case (CallWhen d f t p)
  obtain c u where r: "when' d f t w = (c, u)" by (cases "when' d f t w")
  have "P u" using n [OF CallWhen.prems, of d f t] r by simp
  then have "P (snd (exec (p c) u))" by (rule CallWhen.IH(2) [OF rangeI])
  then show ?case using r by simp
qed

lemma registry_ok_on: "registry_ok w \<Longrightarrow> registry_ok (snd (on key cb w))"
  by (auto simp: registry_ok_def on_def callbacks_at_def Let_def split: option.splits if_splits slot.splits)

lemma registry_ok_cong: "callbacks u = callbacks w \<Longrightarrow> registry_ok w \<Longrightarrow> registry_ok u"
  by (simp add: registry_ok_def)

lemma callbacks_setKeyValue: "callbacks (snd (setKeyValue k v w)) = callbacks w"
  by (simp add: setKeyValue_state store_simps)

lemma callbacks_forEach_setKeyValue:
  "callbacks (snd (forEach (\<lambda>key. setKeyValue key (g key)) ks w)) = callbacks w"
  using forEach_preserves [where P = "\<lambda>u. callbacks u = callbacks w" and f = "\<lambda>key. setKeyValue key (g key)"]
  by (simp add: callbacks_setKeyValue)

lemma callbacks_set: "callbacks (snd (set' a v w)) = callbacks w"
  by (cases a) (simp_all add: set'_def setObject_def callbacks_setKeyValue callbacks_forEach_setKeyValue)

lemma registry_ok_when: "registry_ok w \<Longrightarrow> registry_ok (snd (when' d f t w))"
proof -
  assume a: "registry_ok w"
  have "registry_ok (debounced (nclosures w) (snd (debounce ds f t w)))" for ds
    using a by (simp add: registry_ok_def debounce_def)
  then show ?thesis
    by (simp add: when'_def debounce_def Let_def forEach_preserves registry_ok_on)
qed

lemma nclosures_setQueued [simp]: "nclosures (setQueued i b w) = nclosures w"
  by (simp add: setQueued_def)
lemma timers_setQueued [simp]: "timers (setQueued i b w) = timers w"
  by (simp add: setQueued_def)
lemma calls_setQueued [simp]: "calls (setQueued i b w) = calls w"
  by (simp add: setQueued_def)
lemma callbacks_setQueued [simp]: "callbacks (setQueued i b w) = callbacks w"
  by (simp add: setQueued_def)
lemma nclosures_debounced [simp]: "nclosures (debounced i w) = nclosures w"
  by (simp add: debounced_def)
lemma calls_debounced [simp]: "calls (debounced i w) = calls w"
  by (simp add: debounced_def)

lemma alloc_ok_debounced: "i < nclosures w \<Longrightarrow> alloc_ok w \<Longrightarrow> alloc_ok (debounced i w)"
  by (auto simp: alloc_ok_def debounced_def)

lemma alloc_ok_store: "alloc_ok w \<Longrightarrow> alloc_ok (store k v w)"
  by (simp add: alloc_ok_def store_simps)

lemma alloc_ok_listeners: "alloc_ok w \<Longrightarrow> i \<in> set (listeners w k) \<Longrightarrow> i < nclosures w"
  by (cases "callbacks w k") (auto simp: alloc_ok_def listeners_def)

lemma alloc_ok_setKeyValue: "alloc_ok w \<Longrightarrow> alloc_ok (snd (setKeyValue k v w))"
proof -
  assume a: "alloc_ok w"
  have b: "\<And>i. i \<in> set (listeners w k) \<Longrightarrow> i < nclosures (store k v w)"
    using alloc_ok_listeners [OF a] by (simp add: store_simps)
  have "alloc_ok (fold debounced (listeners w k) (store k v w))"
    using fold_preserves [where P = "\<lambda>u. alloc_ok u \<and> nclosures u = nclosures (store k v w)"
        and g = debounced and xs = "listeners w k" and w = "store k v w"]
      b alloc_ok_store [OF a] alloc_ok_debounced by simp
  then show ?thesis by (simp add: setKeyValue_state)
qed

lemma alloc_ok_set: "alloc_ok w \<Longrightarrow> alloc_ok (snd (set' a v w))"
  by (cases a) (simp_all add: set'_def setObject_def alloc_ok_setKeyValue forEach_preserves)

lemma nclosures_on [simp]: "nclosures (snd (on key cb w)) = nclosures w"
  by (simp add: on_def Let_def callbacks_at_def split: option.splits slot.splits)

lemma alloc_ok_on: "cb < nclosures w \<Longrightarrow> alloc_ok w \<Longrightarrow> alloc_ok (snd (on key cb w))"
  by (auto simp: alloc_ok_def on_def callbacks_at_def Let_def split: option.splits if_splits slot.splits)

lemma alloc_ok_debounce: "alloc_ok w \<Longrightarrow> alloc_ok (snd (debounce ds f t w))"
  by (fastforce simp: alloc_ok_def debounce_def)

lemma alloc_ok_when: "alloc_ok w \<Longrightarrow> alloc_ok (snd (when' d f t w))"
proof -
  assume a: "alloc_ok w"
  define ds where "ds = normalize d"
  define w2 where "w2 = debounced (nclosures w) (snd (debounce ds f t w))"
  have n: "nclosures w < nclosures w2"
    by (simp add: w2_def debounce_def)
  have "alloc_ok w2"
    unfolding w2_def using a by (intro alloc_ok_debounced alloc_ok_debounce) (simp add: debounce_def)
  then have "alloc_ok (snd (forEach (\<lambda>property. on property (nclosures w)) ds w2))"
    using forEach_preserves [where P = "\<lambda>u. alloc_ok u \<and> nclosures w < nclosures u"
        and f = "\<lambda>property. on property (nclosures w)" and w = w2 and xs = ds]
      n alloc_ok_on by simp
  then show ?thesis
    by (simp add: when'_def Let_def ds_def w2_def debounce_def)
qed

lemma alloc_ok_exec: "alloc_ok w \<Longrightarrow> alloc_ok (snd (exec p w))"
  by (rule exec_preserves [where P = alloc_ok]) (simp_all add: alloc_ok_set alloc_ok_when)

lemma alloc_ok_resolver: "i < nclosures w \<Longrightarrow> alloc_ok w \<Longrightarrow> alloc_ok (snd (resolver i w))"
proof -
  assume i: "i < nclosures w" and a: "alloc_ok w"
  have "alloc_ok (w\<lparr>calls := calls w @ [(i, t, args)]\<rparr>)" for t args
    using i a by (auto simp: alloc_ok_def)
  then show ?thesis using a
    by (simp add: resolver_def Let_def alloc_ok_exec)
qed

lemma alloc_ok_tick: "alloc_ok w \<Longrightarrow> alloc_ok (tick w)"
proof (cases "timers w")
  case Nil
  then show "alloc_ok w \<Longrightarrow> alloc_ok (tick w)" by (simp add: tick_def)
next
  case (Cons i rest)
  assume a: "alloc_ok w"
  have i: "i < nclosures w" using a Cons by (simp add: alloc_ok_def)
  have "alloc_ok (setQueued i False (w\<lparr>timers := rest\<rparr>))"
    using a Cons by (auto simp: alloc_ok_def setQueued_def)
  then have "alloc_ok (snd (resolver i (setQueued i False (w\<lparr>timers := rest\<rparr>))))"
    using i by (intro alloc_ok_resolver) simp_all
  then show "alloc_ok (tick w)" using Cons by (simp add: tick_def timeoutFn_def)
qed

lemma alloc_ok_step: "alloc_ok w \<Longrightarrow> alloc_ok (step x w)"
  by (cases x) (simp_all add: alloc_ok_set alloc_ok_when alloc_ok_tick)

lemma alloc_ok_Model: "alloc_ok Model"
  by (simp add: alloc_ok_def Model_def)

lemma pending_ok_debounced: "pending_ok w \<Longrightarrow> pending_ok (debounced i w)"
  by (auto simp: pending_ok_def debounced_def setQueued_def)

lemma pending_ok_store: "pending_ok w \<Longrightarrow> pending_ok (store k v w)"
  by (simp add: pending_ok_def store_simps)

lemma pending_ok_setKeyValue: "pending_ok w \<Longrightarrow> pending_ok (snd (setKeyValue k v w))"
  by (simp add: setKeyValue_state fold_preserves pending_ok_debounced pending_ok_store)

lemma pending_ok_set: "pending_ok w \<Longrightarrow> pending_ok (snd (set' a v w))"
  by (cases a) (simp_all add: set'_def setObject_def pending_ok_setKeyValue forEach_preserves)

lemma pending_ok_on: "pending_ok w \<Longrightarrow> pending_ok (snd (on key cb w))"
  by (simp add: pending_ok_def on_def callbacks_at_def Let_def split: option.splits slot.splits)

lemma pending_ok_debounce:
  "alloc_ok w \<Longrightarrow> pending_ok w \<Longrightarrow> pending_ok (snd (debounce ds f t w))"
proof -
  assume a: "alloc_ok w" and p: "pending_ok w"
  have "nclosures w \<notin> set (timers w)"
    using a by (auto simp: alloc_ok_def)
  then have "count_list (timers w) (nclosures w) = 0"
    by simp
  then show ?thesis
    using p by (auto simp: pending_ok_def debounce_def split: if_splits)
qed

lemma pending_ok_when:
  "alloc_ok w \<Longrightarrow> pending_ok w \<Longrightarrow> pending_ok (snd (when' d f t w))"
  by (simp add: when'_def Let_def split_def forEach_preserves pending_ok_on
      pending_ok_debounced pending_ok_debounce)

lemma heap_ok_set: "heap_ok w \<Longrightarrow> heap_ok (snd (set' a v w))"
  by (simp add: heap_ok_def alloc_ok_set pending_ok_set)

lemma heap_ok_when: "heap_ok w \<Longrightarrow> heap_ok (snd (when' d f t w))"
  by (simp add: heap_ok_def alloc_ok_when pending_ok_when)

lemma heap_ok_exec: "heap_ok w \<Longrightarrow> heap_ok (snd (exec p w))"
  by (rule exec_preserves [where P = heap_ok]) (simp_all add: heap_ok_set heap_ok_when)

lemma heap_ok_resolver: "i < nclosures w \<Longrightarrow> heap_ok w \<Longrightarrow> heap_ok (snd (resolver i w))"
proof -
  assume i: "i < nclosures w" and a: "heap_ok w"
  have "heap_ok (w\<lparr>calls := calls w @ [(i, t, args)]\<rparr>)" for t args
    using i a by (auto simp: heap_ok_def alloc_ok_def pending_ok_def)
  then show ?thesis using a
    by (simp add: resolver_def Let_def heap_ok_exec)
qed

lemma pending_ok_pop:
  assumes p: "pending_ok w" and t: "timers w = i # rest"
  shows "pending_ok (setQueued i False (w\<lparr>timers := rest\<rparr>))"
proof -
  have c: "count_list (i # rest) j = (if queued (closures w j) then 1 else 0)" for j
    using p t by (simp add: pending_ok_def)
  have "count_list rest i = 0"
    using c [of i] by (simp split: if_splits)
  moreover have "j \<noteq> i \<Longrightarrow> count_list rest j = (if queued (closures w j) then 1 else 0)" for j
    using c [of j] by simp
  ultimately show ?thesis
    by (simp add: pending_ok_def setQueued_def)
qed

lemma heap_ok_tick: "heap_ok w \<Longrightarrow> heap_ok (tick w)"
proof (cases "timers w")
  case Nil
  then show "heap_ok w \<Longrightarrow> heap_ok (tick w)" by (simp add: tick_def)
next
  case (Cons i rest)
  assume a: "heap_ok w"
  have i: "i < nclosures w" using a Cons by (simp add: heap_ok_def alloc_ok_def)
  have "alloc_ok (setQueued i False (w\<lparr>timers := rest\<rparr>))"
    using a Cons by (auto simp: heap_ok_def alloc_ok_def setQueued_def)
  then have "heap_ok (setQueued i False (w\<lparr>timers := rest\<rparr>))"
    using a Cons by (simp add: heap_ok_def pending_ok_pop)
  then have "heap_ok (snd (resolver i (setQueued i False (w\<lparr>timers := rest\<rparr>))))"
    using i by (intro heap_ok_resolver) simp_all
  then show "heap_ok (tick w)" using Cons by (simp add: tick_def timeoutFn_def)
qed

lemma heap_ok_step: "heap_ok w \<Longrightarrow> heap_ok (step x w)"
  by (cases x) (simp_all add: heap_ok_set heap_ok_when heap_ok_tick)

lemma heap_ok_Model: "heap_ok Model"
  by (simp add: heap_ok_def alloc_ok_def pending_ok_def Model_def)

lemma heap_ok_run: "heap_ok w \<Longrightarrow> heap_ok (run ops w)"
  unfolding run_def by (induction ops arbitrary: w) (simp_all add: heap_ok_step)

lemma registry_ok_set: "registry_ok w \<Longrightarrow> registry_ok (snd (set' a v w))"
  by (rule registry_ok_cong [OF callbacks_set])

lemma registry_ok_exec: "registry_ok w \<Longrightarrow> registry_ok (snd (exec p w))"
  by (rule exec_preserves [where P = registry_ok]) (simp_all add: registry_ok_set registry_ok_when)

lemma registry_ok_tick: "registry_ok w \<Longrightarrow> registry_ok (tick w)"
proof (cases "timers w")
  case Nil
  then show "registry_ok w \<Longrightarrow> registry_ok (tick w)" by (simp add: tick_def)
next
  case (Cons i rest)
  assume a: "registry_ok w"
  have b: "registry_ok (u\<lparr>calls := cs\<rparr>)" if "registry_ok u" for u cs
    using that by (simp add: registry_ok_def)
  have "registry_ok (setQueued i False (w\<lparr>timers := rest\<rparr>))"
    using a by (simp add: registry_ok_def)
  then have "registry_ok (snd (resolver i (setQueued i False (w\<lparr>timers := rest\<rparr>))))"
    by (simp add: resolver_def Let_def registry_ok_exec b)
  then show "registry_ok (tick w)" using Cons by (simp add: tick_def timeoutFn_def)
qed

lemma registry_ok_step: "registry_ok w \<Longrightarrow> registry_ok (step x w)"
  by (cases x) (simp_all add: registry_ok_set registry_ok_when registry_ok_tick)

lemma registry_ok_run: "registry_ok w \<Longrightarrow> registry_ok (run ops w)"
  unfolding run_def by (induction ops arbitrary: w) (simp_all add: registry_ok_step)

lemma reachable_heap_ok: "reachable w \<Longrightarrow> heap_ok w"
  by (induction rule: reachable.induct) (simp_all add: heap_ok_Model heap_ok_step)

lemma registry_ok_Model: "registry_ok Model"
  by (simp add: registry_ok_def Model_def)

lemma reachable_registry_ok: "reachable w \<Longrightarrow> registry_ok w"
  by (induction rule: reachable.induct) (simp_all add: registry_ok_Model registry_ok_step)

lemma reachable_run: "reachable w \<Longrightarrow> reachable (run ops w)"
  unfolding run_def by (induction ops arbitrary: w) (simp_all add: reachable_step)

lemma extends_refl: "extends w w"
  by (simp add: extends_def)

lemma extends_cong: "callbacks u' = callbacks u \<Longrightarrow> extends w u \<Longrightarrow> extends w u'"
  by (simp add: extends_def listeners_def)

lemma on_listeners:
  "listeners (snd (on key cb w)) k =
     (if k = key \<and> fst (on key cb w) = Normal then listeners w k @ [cb] else listeners w k)"
  by (simp add: on_def listeners_def callbacks_at_def Let_def split: option.splits)

lemma extends_on: "extends w u \<Longrightarrow> extends w (snd (on key cb u))"
proof -
  assume a: "extends w u"
  have "\<exists>ys. listeners (snd (on key cb u)) k = listeners w k @ ys" for k
  proof -
    obtain ys where "listeners u k = listeners w k @ ys"
      using a by (auto simp: extends_def)
    then show ?thesis by (cases "k = key \<and> fst (on key cb u) = Normal") (auto simp: on_listeners)
  qed
  then show ?thesis by (simp add: extends_def)
qed

lemma extends_set: "extends w u \<Longrightarrow> extends w (snd (set' a v u))"
  by (rule extends_cong [OF callbacks_set])

lemma extends_when: "extends w u \<Longrightarrow> extends w (snd (when' d f t u))"
proof -
  assume a: "extends w u"
  have "extends w (debounced (nclosures u) (snd (debounce ds f t u)))" for ds
    using a by (simp add: extends_def listeners_def debounce_def)
  then show ?thesis
    by (simp add: when'_def debounce_def Let_def forEach_preserves extends_on)
qed

lemma extends_exec: "extends w u \<Longrightarrow> extends w (snd (exec p u))"
  by (rule exec_preserves [where P = "extends w"]) (simp_all add: extends_set extends_when)

lemma extends_tick: "extends w u \<Longrightarrow> extends w (tick u)"
proof (cases "timers u")
  case Nil
  then show "extends w u \<Longrightarrow> extends w (tick u)" by (simp add: tick_def)
next
  case (Cons i rest)
  assume a: "extends w u"
  have b: "extends w (x\<lparr>calls := cs\<rparr>)" if "extends w x" for x cs
    using that by (simp add: extends_def listeners_def)
  have "extends w (setQueued i False (u\<lparr>timers := rest\<rparr>))"
    using a by (simp add: extends_def listeners_def)
  then have "extends w (snd (resolver i (setQueued i False (u\<lparr>timers := rest\<rparr>))))"
    by (simp add: resolver_def Let_def extends_exec b)
  then show "extends w (tick u)" using Cons by (simp add: tick_def timeoutFn_def)
qed

lemma extends_step: "extends w u \<Longrightarrow> extends w (step x u)"
  by (cases x) (simp_all add: extends_set extends_when extends_tick)

section \<open>Facts about single operations\<close>

lemma allAreDefined_fold:
  "fold (\<lambda>d allDefined. if d = Undefined \<or> d = Null then False else allDefined) arr b
     = (b \<and> (\<forall>d\<in>set arr. d \<noteq> Undefined \<and> d \<noteq> Null))"
  by (induction arr arbitrary: b) auto

lemma allAreDefined_iff: "allAreDefined arr \<longleftrightarrow> (\<forall>d\<in>set arr. d \<noteq> Undefined \<and> d \<noteq> Null)"
  by (simp add: allAreDefined_def allAreDefined_fold)

lemma calls_setKeyValue: "calls (snd (setKeyValue k v w)) = calls w"
  using fold_preserves [where P = "\<lambda>u. calls u = calls w" and g = debounced
      and xs = "listeners w k" and w = "store k v w"]
  by (simp add: setKeyValue_state store_simps)

lemma calls_set: "calls (snd (set' a v w)) = calls w"
proof (cases a)
  case (Key k)
  then show ?thesis by (simp add: set'_def calls_setKeyValue)
next
  case (Object object)
  have "calls (snd (forEach (\<lambda>key. setKeyValue key (object_at object key)) (map fst object) w)) = calls w"
    by (rule forEach_preserves [where P = "\<lambda>u. calls u = calls w"]) (simp_all add: calls_setKeyValue)
  then show ?thesis using Object by (simp add: set'_def setObject_def)
qed

lemma calls_on: "calls (snd (on key cb w)) = calls w"
  by (simp add: on_def callbacks_at_def Let_def split: option.splits)

lemma calls_when: "calls (snd (when' d f t w)) = calls w"
proof -
  have "calls (snd (forEach (\<lambda>property. on property i) ds u)) = calls w" if "calls u = calls w" for i ds u
    using that by (intro forEach_preserves [where P = "\<lambda>u. calls u = calls w"]) (simp_all add: calls_on)
  then show ?thesis
    by (simp add: when'_def Let_def debounce_def)
qed

lemma calls_exec: "calls (snd (exec p w)) = calls w"
  by (rule exec_preserves [where P = "\<lambda>u. calls u = calls w"]) (simp_all add: calls_set calls_when)

lemma forEach_Normal:
  "forEach f xs w = (Normal, w') \<Longrightarrow> w' = fold (\<lambda>x u. snd (f x u)) xs w"
proof (induction xs arbitrary: w)
  case Nil
  then show ?case by simp
next
  case (Cons x xs)
  obtain c u where fx: "f x w = (c, u)" by (cases "f x w")
  show ?case
  proof (cases c)
    case Normal
    then show ?thesis using Cons fx by simp
  next
    case TypeError
    then show ?thesis using Cons.prems fx by simp
  next
    case Thrown
    then show ?thesis using Cons.prems fx by simp
  qed
qed

lemma object_at_distinct:
  "distinct (map fst object) \<Longrightarrow> (key, x) \<in> set object \<Longrightarrow> object_at object key = x"
  by (simp add: object_at_def)

lemma map_of_rev_distinct: "distinct (map fst xs) \<Longrightarrow> map_of (rev xs) = map_of xs"
proof (induction xs)
  case Nil
  then show ?case by simp
next
  case (Cons p xs)
  obtain k v where p: "p = (k, v)" by (cases p)
  have n: "map_of xs k = None"
    using Cons.prems p by (simp add: map_of_eq_None_iff)
  have "map_of (rev (p # xs)) = map_of [(k, v)] ++ map_of xs"
    using Cons p by (simp add: map_of_append)
  also have "\<dots> = map_of (p # xs)"
    using n p by (auto simp: map_add_def fun_eq_iff split: option.splits)
  finally show ?case .
qed

text \<open>The definitions unfolded when a concrete run is evaluated.\<close>

lemmas ev = when'_def debounce_def debounced_def setQueued_def on_def callbacks_at_def
  objectPrototype_def Model_def normalize_def Let_def set'_def setKeyValue_def setObject_def
  object_at_def tick_def timeoutFn_def resolver_def allAreDefined_def values_at_def get_def
  store_def listeners_def find_prop.simps is_object.simps

section \<open>The timer queue\<close>

lemma queue_extends_debounced: "queue_extends ts u \<Longrightarrow> queue_extends ts (debounced i u)"
  by (auto simp: queue_extends_def debounced_def)

lemma queue_extends_setKeyValue: "queue_extends ts u \<Longrightarrow> queue_extends ts (snd (setKeyValue k v u))"
proof -
  assume "queue_extends ts u"
  then have "queue_extends ts (store k v u)"
    by (simp add: queue_extends_def store_simps)
  then have "queue_extends ts (fold debounced (listeners u k) (store k v u))"
    by (rule fold_preserves [rotated]) (rule queue_extends_debounced)
  then show ?thesis by (simp add: setKeyValue_state)
qed

lemma queue_extends_set: "queue_extends ts u \<Longrightarrow> queue_extends ts (snd (set' a v u))"
  by (cases a) (simp_all add: set'_def setObject_def queue_extends_setKeyValue forEach_preserves)

lemma timers_on [simp]: "timers (snd (on key cb w)) = timers w"
  by (simp add: on_def callbacks_at_def Let_def split: option.splits)

lemma closures_on [simp]: "closures (snd (on key cb w)) = closures w"
  by (simp add: on_def callbacks_at_def Let_def split: option.splits)

lemma values_on [simp]: "values' (snd (on key cb w)) = values' w"
  by (simp add: on_def callbacks_at_def Let_def split: option.splits)

lemma vproto_on [simp]: "vproto (snd (on key cb w)) = vproto w"
  by (simp add: on_def callbacks_at_def Let_def split: option.splits)

lemma forEach_on_frame:
  "timers (snd (forEach (\<lambda>property. on property i) ds u)) = timers u
   \<and> closures (snd (forEach (\<lambda>property. on property i) ds u)) = closures u
   \<and> values' (snd (forEach (\<lambda>property. on property i) ds u)) = values' u
   \<and> vproto (snd (forEach (\<lambda>property. on property i) ds u)) = vproto u
   \<and> nclosures (snd (forEach (\<lambda>property. on property i) ds u)) = nclosures u
   \<and> calls (snd (forEach (\<lambda>property. on property i) ds u)) = calls u"
  by (rule forEach_preserves [where P = "\<lambda>x. timers x = timers u \<and> closures x = closures u
        \<and> values' x = values' u \<and> vproto x = vproto u
        \<and> nclosures x = nclosures u \<and> calls x = calls u"])
     (simp_all add: calls_on)

lemma when_frame:
  "timers (snd (when' d f t w)) = timers w @ [nclosures w]
   \<and> closures (snd (when' d f t w)) = (closures w)(nclosures w :=
        \<lparr>dependencies = normalize d, fn = f, thisArg = t, queued = True\<rparr>)
   \<and> values' (snd (when' d f t w)) = values' w
   \<and> vproto (snd (when' d f t w)) = vproto w
   \<and> nclosures (snd (when' d f t w)) = Suc (nclosures w)
   \<and> calls (snd (when' d f t w)) = calls w"
  by (simp add: when'_def Let_def debounce_def forEach_on_frame debounced_def setQueued_def)

lemma queue_extends_when: "queue_extends ts u \<Longrightarrow> queue_extends ts (snd (when' d f t u))"
  by (auto simp: queue_extends_def when_frame)

lemma queue_extends_exec: "queue_extends ts u \<Longrightarrow> queue_extends ts (snd (exec p u))"
  by (rule exec_preserves [where P = "queue_extends ts"]) (simp_all add: queue_extends_set queue_extends_when)

lemma queue_extends_resolver: "queue_extends ts u \<Longrightarrow> queue_extends ts (snd (resolver i u))"
proof -
  assume a: "queue_extends ts u"
  have "queue_extends ts (u\<lparr>calls := cs\<rparr>)" for cs
    using a by (simp add: queue_extends_def)
  then show ?thesis using a
    by (simp add: resolver_def Let_def queue_extends_exec)
qed

lemma timers_tick: "timers w = i # rest \<Longrightarrow> \<exists>ys. timers (tick w) = rest @ ys"
proof -
  assume t: "timers w = i # rest"
  have "queue_extends rest (setQueued i False (w\<lparr>timers := rest\<rparr>))"
    by (simp add: queue_extends_def)
  then have "queue_extends rest (snd (resolver i (setQueued i False (w\<lparr>timers := rest\<rparr>))))"
    by (rule queue_extends_resolver)
  then show ?thesis using t by (simp add: tick_def timeoutFn_def queue_extends_def)
qed

lemma tasks_run_take: "n \<le> length (timers w) \<Longrightarrow> tasks_run n w = take n (timers w)"
proof (induction n arbitrary: w)
  case 0
  then show ?case by simp
next
  case (Suc n)
  then obtain i rest where t: "timers w = i # rest" by (cases "timers w") auto
  obtain ys where y: "timers (tick w) = rest @ ys" using timers_tick [OF t] by blast
  have "n \<le> length (timers (tick w))" using Suc.prems t y by simp
  then have "tasks_run n (tick w) = take n (rest @ ys)" using Suc.IH y by simp
  then show ?case using t Suc.prems by simp
qed

lemma tasks_run_queue: "tasks_run (length (timers w)) w = timers w"
  by (simp add: tasks_run_take)

lemma debounced_burst:
  "\<not> queued (closures w i) \<Longrightarrow>
     (debounced i ^^ Suc n) w = (setQueued i True w)\<lparr>timers := timers w @ [i]\<rparr>"
proof (induction n)
  case 0
  then show ?case by (simp add: debounced_def)
next
  case (Suc n)
  have "debounced i ((setQueued i True w)\<lparr>timers := timers w @ [i]\<rparr>)
      = (setQueued i True w)\<lparr>timers := timers w @ [i]\<rparr>"
    by (simp add: debounced_def setQueued_def)
  then show ?case using Suc by simp
qed

lemma queued_debounced: "queued (closures (debounced i w) i)"
  by (simp add: debounced_def setQueued_def)

lemma pending_ok_burst: "pending_ok w \<Longrightarrow> pending_ok ((debounced i ^^ n) w)"
  by (induction n) (simp_all add: pending_ok_debounced)

lemma calls_burst: "calls ((debounced i ^^ n) w) = calls w"
  by (induction n) simp_all

text \<open>Raising a lowered flag and lowering it again gives the state back.\<close>

lemma setQueued_restore: "\<not> queued (closures w i) \<Longrightarrow> setQueued i False (setQueued i True w) = w"
proof -
  assume q: "\<not> queued (closures w i)"
  have "(closures w i)\<lparr>queued := False\<rparr> = closures w i"
    using q by simp
  then have "(closures w)(i := (closures w i)\<lparr>queued := False\<rparr>) = closures w"
    by simp
  then show ?thesis
    by (simp add: setQueued_def)
qed

text \<open>A burst on an idle closure with nothing else pending, then one turn: one run of the action.\<close>

lemma tick_after_burst:
  assumes e: "timers w = []" and q: "\<not> queued (closures w i)"
  shows "tick ((debounced i ^^ Suc n) w) = snd (resolver i w)"
proof -
  have b: "(debounced i ^^ Suc n) w = (setQueued i True w)\<lparr>timers := [i]\<rparr>"
    using debounced_burst [OF q, of n] e by simp
  have "(setQueued i True w)\<lparr>timers := []\<rparr> = setQueued i True w"
    using e by (simp add: setQueued_def)
  then have "setQueued i False ((setQueued i True w)\<lparr>timers := [i], timers := []\<rparr>) = w"
    using setQueued_restore [OF q] by simp
  then show ?thesis
    unfolding b by (simp add: tick_def timeoutFn_def)
qed

text \<open>The turns that drain the queue run the tasks that were pending, each once, oldest first.\<close>

lemma drain_tasks:
  "timers w = ts @ ys \<Longrightarrow>
     run (replicate (length ts) Tick) w
       = fold (\<lambda>j s. snd (resolver j (setQueued j False (s\<lparr>timers := tl (timers s)\<rparr>)))) ts w"
proof (induction ts arbitrary: w ys)
  case Nil
  then show ?case by (simp add: run_def)
next
  case (Cons j ts)
  have t: "timers w = j # (ts @ ys)"
    using Cons.prems by simp
  obtain zs where z: "timers (tick w) = ts @ (ys @ zs)"
    using timers_tick [OF t] by auto
  have k: "tick w = snd (resolver j (setQueued j False (w\<lparr>timers := tl (timers w)\<rparr>)))"
    using t by (simp add: tick_def timeoutFn_def)
  have "run (replicate (length (j # ts)) Tick) w = run (replicate (length ts) Tick) (tick w)"
    by (simp add: run_def)
  also have "\<dots> = fold (\<lambda>j s. snd (resolver j (setQueued j False (s\<lparr>timers := tl (timers s)\<rparr>)))) ts (tick w)"
    by (rule Cons.IH [OF z])
  finally show ?case
    by (simp add: k)
qed

lemma calls_resolver: "calls (snd (resolver i w)) = calls w @ fire w i"
  by (simp add: resolver_def fire_def Let_def calls_exec)

lemma fire_length: "length (fire w i) \<le> 1"
  by (simp add: fire_def Let_def)

section \<open>Facts about \<open>when\<close>\<close>

lemma forEach_on_listeners:
  "forEach (\<lambda>property. on property i) ds u = (Normal, u') \<Longrightarrow>
     listeners u' k = listeners u k @ replicate (count_list ds k) i"
proof (induction ds arbitrary: u)
  case Nil
  then show ?case by simp
next
  case (Cons x ds)
  obtain c u1 where o: "on x i u = (c, u1)" by (cases "on x i u")
  show ?case
  proof (cases c)
    case Normal
    have 1: "listeners u1 k = (if k = x then listeners u k @ [i] else listeners u k)"
      using on_listeners [of x i u k] o Normal by simp
    have "forEach (\<lambda>property. on property i) ds u1 = (Normal, u')"
      using Cons.prems o Normal by simp
    then have "listeners u' k = listeners u1 k @ replicate (count_list ds k) i"
      by (rule Cons.IH)
    then show ?thesis using 1 by (simp add: replicate_app_Cons_same)
  next
    case TypeError
    then show ?thesis using Cons.prems o by simp
  next
    case Thrown
    then show ?thesis using Cons.prems o by simp
  qed
qed

lemma when_listeners:
  assumes "when' d f t w = (Normal, w')"
  shows "listeners w' k = listeners w k @ replicate (count_list (normalize d) k) (nclosures w)"
proof -
  let ?w2 = "debounced (nclosures w) (snd (debounce (normalize d) f t w))"
  have "forEach (\<lambda>property. on property (nclosures w)) (normalize d) ?w2 = (Normal, w')"
    using assms by (simp add: when'_def Let_def debounce_def)
  then have "listeners w' k = listeners ?w2 k @ replicate (count_list (normalize d) k) (nclosures w)"
    by (rule forEach_on_listeners)
  moreover have "listeners ?w2 k = listeners w k"
    by (simp add: listeners_def debounce_def)
  ultimately show ?thesis by simp
qed

lemma fresh_not_listener: "alloc_ok w \<Longrightarrow> nclosures w \<notin> set (listeners w k)"
  using alloc_ok_listeners [of w "nclosures w" k] by auto

lemma run_ticks_idle: "timers u = [] \<Longrightarrow> run (replicate n Tick) u = u"
  by (induction n) (simp_all add: run_def tick_def)

lemma run_Cons: "run (x # ops) w = run ops (step x w)"
  by (simp add: run_def)

lemma tick_after_when:
  assumes e: "timers w = []"
  shows "tick (snd (when' d f t w)) =
     snd (resolver (nclosures w) (setQueued (nclosures w) False ((snd (when' d f t w))\<lparr>timers := []\<rparr>)))"
  using when_frame [of d f t w] e by (simp add: tick_def timeoutFn_def)

lemma resolver_after_when:
  fixes d f t w
  defines "i \<equiv> nclosures w" and "args \<equiv> map (\<lambda>k. get k w) (normalize d)"
  defines "u \<equiv> setQueued i False ((snd (when' d f t w))\<lparr>timers := []\<rparr>)"
  assumes a: "\<forall>v\<in>set args. v \<noteq> Undefined \<and> v \<noteq> Null"
  shows "resolver i u = exec (f t args) (u\<lparr>calls := calls w @ [(i, t, args)]\<rparr>)"
proof -
  have c: "closures u i = \<lparr>dependencies = normalize d, fn = f, thisArg = t, queued = False\<rparr>"
    using when_frame [of d f t w] by (simp add: u_def i_def setQueued_def)
  have "values' u = values' w" and "vproto u = vproto w"
    using when_frame [of d f t w] by (simp_all add: u_def)
  then have v: "values_at u = values_at w"
    by (rule values_at_cong)
  have cs: "calls u = calls w"
    using when_frame [of d f t w] by (simp add: u_def)
  have g: "map (values_at u) (normalize d) = args"
    by (simp add: args_def get_def v)
  have "allAreDefined args"
    using a by (simp add: allAreDefined_iff)
  then show ?thesis
    by (simp add: resolver_def Let_def c g cs)
qed

lemma count_list_replicate: "count_list (replicate n x) y = (if x = y then n else 0)"
  by (induction n) auto

lemma calls_tick: "length (calls (tick u)) \<le> Suc (length (calls u))"
proof (cases "timers u")
  case Nil
  then show ?thesis by (simp add: tick_def)
next
  case (Cons i rest)
  have "length (calls (snd (resolver i x))) \<le> Suc (length (calls x))" for x
    by (simp add: resolver_def Let_def calls_exec)
  from this [of "setQueued i False (u\<lparr>timers := rest\<rparr>)"] show ?thesis
    using Cons by (simp add: tick_def timeoutFn_def)
qed

lemma pending_ok_le: "pending_ok u \<Longrightarrow> count_list (timers u) i \<le> 1"
  by (simp add: pending_ok_def)

section \<open>A closure that no property triggers\<close>



lemma listeners_fold_debounced [simp]: "listeners (fold debounced ls w) k = listeners w k"
  by (simp add: listeners_def)















section \<open>Draining the queue when no callback calls back\<close>

lemma same_env_fire: "same_env u u' \<Longrightarrow> fire u' j = fire u j"
proof -
  assume a: "same_env u u'"
  then have "values' u' = values' u" and "vproto u' = vproto u"
    by (simp_all add: same_env_def)
  then have "values_at u' = values_at u"
    by (rule values_at_cong)
  then show ?thesis
    using a by (simp add: same_env_def fire_def Let_def)
qed

lemma same_env_silent: "same_env u u' \<Longrightarrow> all_silent u \<Longrightarrow> all_silent u'"
  by (simp add: same_env_def all_silent_def)

lemma tick_silent:
  assumes s: "all_silent u" and t: "timers u = j # rest"
  shows "tick u = (setQueued j False (u\<lparr>timers := rest\<rparr>))\<lparr>calls := calls u @ fire u j\<rparr>"
proof -
  let ?u0 = "setQueued j False (u\<lparr>timers := rest\<rparr>)"
  have c: "dependencies (closures ?u0 j) = dependencies (closures u j)
      \<and> fn (closures ?u0 j) = fn (closures u j) \<and> thisArg (closures ?u0 j) = thisArg (closures u j)"
    by (simp add: setQueued_def)
  have v: "values_at ?u0 = values_at u"
    by (rule values_at_cong) simp_all
  have e: "snd (exec (fn (closures u j) th args) x) = x" for th args x
    using s by (simp add: all_silent_def silent_def)
  have "snd (resolver j ?u0) = ?u0\<lparr>calls := calls u @ fire u j\<rparr>"
    by (simp add: resolver_def Let_def c v e fire_def)
  then show ?thesis using t by (simp add: tick_def timeoutFn_def)
qed

lemma drain_silent:
  "all_silent u \<Longrightarrow> length (timers u) = n \<Longrightarrow>
     timers (run (replicate n Tick) u) = []
     \<and> same_env u (run (replicate n Tick) u)
     \<and> calls (run (replicate n Tick) u) = calls u @ concat (map (fire u) (timers u))"
proof (induction n arbitrary: u)
  case 0
  then show ?case by (simp add: run_def same_env_def)
next
  case (Suc n)
  then obtain j rest where t: "timers u = j # rest" by (cases "timers u") auto
  note tk = tick_silent [OF Suc.prems(1) t]
  have se: "same_env u (tick u)"
    by (simp add: tk same_env_def setQueued_def)
  have l: "length (timers (tick u)) = n"
    using Suc.prems(2) t by (simp add: tk)
  have tt: "timers (tick u) = rest"
    by (simp add: tk)
  have cc: "calls (tick u) = calls u @ fire u j"
    by (simp add: tk)
  note IH = Suc.IH [OF same_env_silent [OF se Suc.prems(1)] l]
  have f: "map (fire (tick u)) rest = map (fire u) rest"
    by (simp add: same_env_fire [OF se])
  have "same_env u (run (replicate n Tick) (tick u))"
    using IH se by (simp add: same_env_def)
  then show ?case
    using IH by (simp add: run_Cons t tt cc f)
qed

lemma run_append: "run (xs @ ys) w = run ys (run xs w)"
  by (simp add: run_def)

lemma fire_fst: "c \<in> set (fire u j) \<Longrightarrow> fst c = j"
  by (auto simp: fire_def Let_def split: if_splits)

lemma filter_fire_other: "i \<notin> set ts \<Longrightarrow> filter (\<lambda>c. fst c = i) (concat (map (fire u) ts)) = []"
  by (auto simp: filter_empty_conv dest: fire_fst)

lemma all_silent_when:
  "all_silent w \<Longrightarrow> silent f \<Longrightarrow> all_silent (snd (when' d f t w))"
  using when_frame [of d f t w] by (simp add: all_silent_def)

lemma fire_after_when:
  assumes "\<forall>v\<in>set (map (\<lambda>k. get k w) (normalize d)). v \<noteq> Undefined \<and> v \<noteq> Null"
  shows "fire (snd (when' d f t w)) (nclosures w)
     = [(nclosures w, t, map (\<lambda>k. get k w) (normalize d))]"
proof -
  note fr = when_frame [of d f t w]
  have v: "values_at (snd (when' d f t w)) = values_at w"
    using fr by (intro values_at_cong) simp_all
  have g: "map (values_at w) (normalize d) = map (\<lambda>k. get k w) (normalize d)"
    by (simp add: get_def)
  have "allAreDefined (map (values_at w) (normalize d))"
    using assms by (simp only: g allAreDefined_iff)
  then show ?thesis
    using fr by (simp add: fire_def Let_def v g)
qed

lemma when_then_drain:
  assumes r: "reachable w" and s: "all_silent w" and sf: "silent f"
    and a: "\<forall>v\<in>set (map (\<lambda>k. get k w) (normalize d)). v \<noteq> Undefined \<and> v \<noteq> Null"
  shows "calls_of (nclosures w) (run (replicate (Suc (length (timers w)) + n) Tick) (snd (when' d f t w)))
       = [(nclosures w, t, map (\<lambda>k. get k w) (normalize d))]
     \<and> timers (run (replicate (Suc (length (timers w)) + n) Tick) (snd (when' d f t w))) = []"
proof -
  let ?i = "nclosures w" and ?w1 = "snd (when' d f t w)"
  let ?L = "Suc (length (timers w))"
  let ?u = "run (replicate ?L Tick) ?w1"
  note fr = when_frame [of d f t w]
  have h: "alloc_ok w" using reachable_heap_ok [OF r] by (simp add: heap_ok_def)
  have len: "length (timers ?w1) = ?L" using fr by simp
  note dr = drain_silent [OF all_silent_when [OF s sf] len]
  have 1: "timers ?u = []" using dr by simp
  have "?i \<notin> set (timers w)" using h by (auto simp: alloc_ok_def)
  then have 2: "filter (\<lambda>c. fst c = ?i) (concat (map (fire ?w1) (timers w))) = []"
    by (rule filter_fire_other)
  have 3: "filter (\<lambda>c. fst c = ?i) (calls w) = []"
    using h by (auto simp: alloc_ok_def filter_empty_conv)
  have "calls ?u = calls w @ concat (map (fire ?w1) (timers w)) @ fire ?w1 ?i"
    using dr fr by simp
  then have 4: "calls_of ?i ?u = [(?i, t, map (\<lambda>k. get k w) (normalize d))]"
    by (simp add: calls_of_def 2 3 fire_after_when [OF a])
  have "run (replicate (?L + n) Tick) ?w1 = run (replicate n Tick) ?u"
    by (simp only: replicate_add run_append)
  also have "\<dots> = ?u"
    using 1 by (rule run_ticks_idle)
  finally show ?thesis using 1 4 by simp
qed

section \<open>When a call completes\<close>

text \<open>
  The only exception the library itself can raise is the \<open>TypeError\<close> of calling
  \<open>push\<close> or \<open>forEach\<close> on what \<open>callbacks\<close> inherits from \<open>Object.prototype\<close>.
\<close>

lemma on_completes:
  "fst (on key cb w) = (if key \<in> set objectPrototype \<and> callbacks w key = None then TypeError else Normal)"
  by (simp add: on_def callbacks_at_def Let_def split: option.splits)

lemma setKeyValue_completes:
  "fst (setKeyValue key v w) =
     (if key \<in> set objectPrototype \<and> callbacks w key = None then TypeError else Normal)"
  by (simp add: setKeyValue_def callbacks_at_def Let_def split: option.splits)

lemma forEach_completes:
  assumes "\<And>x u. x \<in> set xs \<Longrightarrow> fst (f x u) = Normal"
  shows "fst (forEach f xs w) = Normal"
  using assms
proof (induction xs arbitrary: w)
  case Nil
  then show ?case by simp
next
  case (Cons x xs)
  obtain c u where fx: "f x w = (c, u)" by (cases "f x w")
  have "c = Normal" using Cons.prems [of x w] fx by simp
  then show ?case using Cons fx by simp
qed

lemma when_completes:
  "set (normalize d) \<inter> set objectPrototype = {} \<Longrightarrow> fst (when' d f t w) = Normal"
  by (auto simp: when'_def Let_def debounce_def on_completes intro!: forEach_completes)

lemma setObject_completes:
  assumes "fst ` set object \<inter> set objectPrototype = {}"
  shows "fst (set' (Object object) v w) = Normal"
proof -
  have "key \<in> set (map fst object) \<Longrightarrow> key \<notin> set objectPrototype" for key
    using assms by auto
  then have "fst (forEach (\<lambda>key. setKeyValue key (object_at object key)) (map fst object) w) = Normal"
    by (intro forEach_completes) (simp add: setKeyValue_completes)
  then show ?thesis by (simp add: set'_def setObject_def)
qed

text \<open>A name inherited from \<open>Object.prototype\<close> makes \<open>on\<close> and \<open>setKeyValue\<close> throw.\<close>

lemma when_inherited_throws:
  "fst (when' (Name ''toString'') f t Model) = TypeError
   \<and> callbacks (snd (when' (Name ''toString'') f t Model)) ''toString'' = None"
  by (simp add: ev)

lemma set_inherited_throws:
  "fst (set' (Key ''toString'') v Model) = TypeError"
  by (simp add: ev)

section \<open>get and set\<close>

text \<open>
  On a model whose \<open>values\<close> object still has its first prototype, a key other than
  \<open>__proto__\<close> reads back what was assigned to it.
\<close>

lemma set_get_fresh_prototype:
  "vproto w = ObjectPrototype \<Longrightarrow> k \<noteq> ''__proto__'' \<Longrightarrow> get k (snd (set' (Key k) v w)) = v"
  by (simp add: set'_def setKeyValue_state store_plain get_def values_at_def)

text \<open>
  C3. The read after a \<open>set\<close> that returned can differ from the value set. The call
  \<open>set("__proto__", o)\<close> with a frozen object \<open>o\<close> holding \<open>a = 7\<close> ends in a
  \<open>TypeError\<close>, but only after the assignment has made \<open>o\<close> the prototype of
  \<open>values\<close>. From then on \<open>set("a", 1)\<close> returns normally, its assignment is dropped
  because \<open>a\<close> is inherited and not writable, and \<open>get("a")\<close> is \<open>7\<close>.
\<close>

theorem set_get_lost_under_frozen_prototype:
  "fst (set' (Key ''__proto__'') (Obj [(''a'', Num 7, False)] ObjectPrototype) Model) = TypeError
   \<and> vproto (snd (set' (Key ''__proto__'') (Obj [(''a'', Num 7, False)] ObjectPrototype) Model))
       = Obj [(''a'', Num 7, False)] ObjectPrototype
   \<and> fst (set' (Key ''a'') (Num 1)
        (snd (set' (Key ''__proto__'') (Obj [(''a'', Num 7, False)] ObjectPrototype) Model))) = Normal
   \<and> get ''a'' (snd (set' (Key ''a'') (Num 1)
        (snd (set' (Key ''__proto__'') (Obj [(''a'', Num 7, False)] ObjectPrototype) Model)))) = Num 7"
  by (simp add: ev)

text \<open>
  C7. \<open>get\<close> is a read of \<open>values[key]\<close> through the prototype chain. On a model that
  never stored anything under \<open>toString\<close> it returns the inherited function, not
  \<open>undefined\<close>.
\<close>

theorem get_unset_inherited:
  "values' Model ''toString'' = None \<and> get ''toString'' Model = Builtin ''toString''
   \<and> get ''toString'' Model \<noteq> Undefined"
  by (simp add: get_def values_at_def Model_def objectPrototype_def)

text \<open>
  On a model whose \<open>values\<close> object still has its first prototype, the read of any
  other name that was never set is \<open>undefined\<close>; under \<open>__proto__\<close> it is
  \<open>Object.prototype\<close>.
\<close>

lemma get_unset_plain:
  "values' w k = None \<Longrightarrow> vproto w = ObjectPrototype \<Longrightarrow> k \<notin> set objectPrototype \<Longrightarrow>
     get k w = Undefined"
  by (auto simp: get_def values_at_def objectPrototype_def)

lemma get_unset_proto: "get ''__proto__'' Model = ObjectPrototype"
  by (simp add: get_def values_at_def Model_def)

lemma get_stored: "values' w k = Some v \<Longrightarrow> get k w = v"
  by (simp add: get_def values_at_def)



text \<open>
  When \<open>set(object)\<close> completes, the state is the one that the rounds of its keys
  produce in sequence: for each key in the order of \<open>Object.keys(object)\<close>, the
  assignment and then the whole round of the listeners of that key, on the state left by
  the round of the key before.
\<close>

lemma setObject_rounds_when_completed:
  assumes r: "set' (Object object) v w = (Normal, w')"
    and d: "distinct (map fst object)"
  shows "w' = fold (\<lambda>(key, x) u. fold debounced (listeners u key) (store key x u)) object w"
proof -
  have "w' = fold (\<lambda>key u. snd (setKeyValue key (object_at object key) u)) (map fst object) w"
    using r by (simp add: set'_def setObject_def forEach_Normal)
  also have "\<dots> = fold (\<lambda>p u. snd (setKeyValue (fst p) (object_at object (fst p)) u)) object w"
    by (simp add: fold_map comp_def)
  also have "\<dots> = fold (\<lambda>(key, x) u. fold debounced (listeners u key) (store key x u)) object w"
    by (rule fold_cong) (auto simp: setKeyValue_state object_at_distinct [OF d])
  finally show ?thesis .
qed

text \<open>
  C6. \<open>set(object)\<close> does not reach every key. With the keys \<open>a\<close>, \<open>toString\<close>, \<open>b\<close>
  in this order, \<open>setKeyValue\<close> assigns \<open>a\<close> and \<open>toString\<close>, then finds the function
  inherited under \<open>callbacks["toString"]\<close>, calls its missing \<open>forEach\<close> and throws; the
  loop ends there and \<open>b\<close> is never set.
\<close>

theorem setObject_stops_at_inherited_key:
  "fst (set' (Object [(''a'', Num 1), (''toString'', Num 2), (''b'', Num 3)]) Undefined Model) = TypeError
   \<and> get ''a'' (snd (set' (Object [(''a'', Num 1), (''toString'', Num 2), (''b'', Num 3)]) Undefined Model))
       = Num 1
   \<and> get ''toString'' (snd (set' (Object [(''a'', Num 1), (''toString'', Num 2), (''b'', Num 3)]) Undefined Model))
       = Num 2
   \<and> values' (snd (set' (Object [(''a'', Num 1), (''toString'', Num 2), (''b'', Num 3)]) Undefined Model)) ''b''
       = None
   \<and> get ''b'' (snd (set' (Object [(''a'', Num 1), (''toString'', Num 2), (''b'', Num 3)]) Undefined Model))
       = Undefined"
  by (simp add: ev)

section \<open>debounce\<close>

text \<open>
  C2. A closure made by \<open>debounce\<close> starts with \<open>queued = false\<close>. Calling the
  function it returns once or several times in a row leaves exactly the state of a
  single call: from a lowered flag, the flag raised and one task appended to the timer
  queue; from a raised flag, no change. No callback is called during these calls. In a
  reachable state the queue then holds exactly one task of the closure. A turn of the
  event loop takes the oldest task off the queue, lowers the flag of its closure and then
  runs the wrapped function once, on the state with the lowered flag and with no
  argument; the turns that drain the queue run the tasks that were pending one after
  the other, each once, oldest first. So a burst on an idle closure with nothing else
  pending, followed by one turn, is one run of the wrapped function on the state before
  the burst, and the log of calls grows by the one call that this run makes, if it makes
  one. Since the flag is lowered before the wrapped function runs, a call of the trigger
  made from inside that function appends a new task.
\<close>

theorem debounce_coalesces:
  "\<not> queued (closures (snd (debounce ds f t w)) (fst (debounce ds f t w)))
   \<and> (\<not> queued (closures w i) \<longrightarrow>
        (debounced i ^^ Suc n) w = (setQueued i True w)\<lparr>timers := timers w @ [i]\<rparr>)
   \<and> (queued (closures w i) \<longrightarrow> (debounced i ^^ Suc n) w = w)
   \<and> calls ((debounced i ^^ Suc n) w) = calls w
   \<and> (reachable w \<longrightarrow> count_list (timers ((debounced i ^^ Suc n) w)) i = 1)
   \<and> (timers w = j # rest \<longrightarrow>
        tick w = snd (resolver j (setQueued j False (w\<lparr>timers := rest\<rparr>))))
   \<and> run (replicate (length (timers w)) Tick) w
       = fold (\<lambda>j s. snd (resolver j (setQueued j False (s\<lparr>timers := tl (timers s)\<rparr>)))) (timers w) w
   \<and> (timers w = [] \<and> \<not> queued (closures w i) \<longrightarrow>
        tick ((debounced i ^^ Suc n) w) = snd (resolver i w)
        \<and> calls (tick ((debounced i ^^ Suc n) w)) = calls w @ fire w i)
   \<and> length (fire w i) \<le> 1
   \<and> \<not> queued (closures (setQueued i False w) i)
   \<and> debounced i (setQueued i False w) = (setQueued i True w)\<lparr>timers := timers w @ [i]\<rparr>"
proof -
  have 1: "\<not> queued (closures (snd (debounce ds f t w)) (fst (debounce ds f t w)))"
    by (simp add: debounce_def)
  have 2: "(debounced i ^^ Suc n) w = w" if "queued (closures w i)"
    using that by (induction n) (simp_all add: debounced_def)
  have 3: "count_list (timers ((debounced i ^^ Suc n) w)) i = 1" if r: "reachable w"
  proof -
    have "pending_ok ((debounced i ^^ Suc n) w)"
      using reachable_heap_ok [OF r] by (simp only: heap_ok_def pending_ok_burst)
    moreover have "queued (closures ((debounced i ^^ Suc n) w) i)"
      by (simp add: queued_debounced)
    ultimately show ?thesis
      by (simp only: pending_ok_def if_True)
  qed
  have 4: "tick w = snd (resolver j (setQueued j False (w\<lparr>timers := rest\<rparr>)))"
    if "timers w = j # rest"
    using that by (simp add: tick_def timeoutFn_def)
  have 5: "run (replicate (length (timers w)) Tick) w
      = fold (\<lambda>j s. snd (resolver j (setQueued j False (s\<lparr>timers := tl (timers s)\<rparr>)))) (timers w) w"
    by (rule drain_tasks [where ys = "[]"]) simp
  have 6: "tick ((debounced i ^^ Suc n) w) = snd (resolver i w)"
    if "timers w = []" and "\<not> queued (closures w i)"
    using that by (rule tick_after_burst)
  have 7: "calls (tick ((debounced i ^^ Suc n) w)) = calls w @ fire w i"
    if "timers w = []" and "\<not> queued (closures w i)"
    by (simp only: 6 [OF that] calls_resolver)
  have 8: "\<not> queued (closures (setQueued i False w) i)"
    by (simp add: setQueued_def)
  have 9: "debounced i (setQueued i False w) = (setQueued i True w)\<lparr>timers := timers w @ [i]\<rparr>"
    by (simp add: debounced_def setQueued_def)
  have 10: "calls ((debounced i ^^ Suc n) w) = calls w"
    by (rule calls_burst)
  from 1 2 3 4 5 6 7 8 9 10 fire_length [of w i] debounced_burst [of w i n] show ?thesis
    by blast
qed

theorem debounce_coalesces_witness:
  "reachable (tick (snd (when' (Name ''a'') (\<lambda>_ _. Return) (Ref 7) (snd (set' (Key ''a'') (Num 5) Model)))))
   \<and> timers (tick (snd (when' (Name ''a'') (\<lambda>_ _. Return) (Ref 7) (snd (set' (Key ''a'') (Num 5) Model))))) = []
   \<and> \<not> queued (closures (tick (snd (when' (Name ''a'') (\<lambda>_ _. Return) (Ref 7)
         (snd (set' (Key ''a'') (Num 5) Model))))) 0)
   \<and> calls (tick (snd (when' (Name ''a'') (\<lambda>_ _. Return) (Ref 7) (snd (set' (Key ''a'') (Num 5) Model)))))
       = [(0, Ref 7, [Num 5])]
   \<and> timers ((debounced 0 ^^ Suc 2) (tick (snd (when' (Name ''a'') (\<lambda>_ _. Return) (Ref 7)
         (snd (set' (Key ''a'') (Num 5) Model)))))) = [0]
   \<and> count_list (timers ((debounced 0 ^^ Suc 2) (tick (snd (when' (Name ''a'') (\<lambda>_ _. Return) (Ref 7)
         (snd (set' (Key ''a'') (Num 5) Model))))))) 0 = 1
   \<and> calls ((debounced 0 ^^ Suc 2) (tick (snd (when' (Name ''a'') (\<lambda>_ _. Return) (Ref 7)
         (snd (set' (Key ''a'') (Num 5) Model)))))) = [(0, Ref 7, [Num 5])]
   \<and> calls (tick ((debounced 0 ^^ Suc 2) (tick (snd (when' (Name ''a'') (\<lambda>_ _. Return) (Ref 7)
         (snd (set' (Key ''a'') (Num 5) Model)))))))
       = [(0, Ref 7, [Num 5]), (0, Ref 7, [Num 5])]
   \<and> timers (snd (when' (Name ''a'') (\<lambda>_ _. Return) (Ref 7) (snd (set' (Key ''a'') (Num 5) Model)))) = [0]
   \<and> queued (closures (snd (when' (Name ''a'') (\<lambda>_ _. Return) (Ref 7)
         (snd (set' (Key ''a'') (Num 5) Model)))) 0)
   \<and> (debounced 0 ^^ Suc 2) (snd (when' (Name ''a'') (\<lambda>_ _. Return) (Ref 7) (snd (set' (Key ''a'') (Num 5) Model))))
       = snd (when' (Name ''a'') (\<lambda>_ _. Return) (Ref 7) (snd (set' (Key ''a'') (Num 5) Model)))"
proof -
  let ?f = "\<lambda>(_::jsval) (_::jsval list). Return"
  let ?V = "snd (when' (Name ''a'') ?f (Ref 7) (snd (set' (Key ''a'') (Num 5) Model)))"
  let ?W = "tick ?V"
  let ?B = "(debounced 0 ^^ Suc 2) ?W"
  have "reachable (step Tick (step (When (Name ''a'') ?f (Ref 7)) (step (Set (Key ''a'') (Num 5)) Model)))"
    by (intro reachable_step reachable_Model)
  then have r: "reachable ?W"
    by simp
  have tv: "timers ?V = [0]"
    by (simp add: ev)
  have q': "queued (closures ?V 0)"
    by (simp add: ev)
  note cv = debounce_coalesces [where w = ?V and i = 0 and n = 2 and ds = "[]" and t = Undefined
      and f = ?f and j = 0 and rest = "[]"]
  have kv: "?W = snd (resolver 0 (setQueued 0 False (?V\<lparr>timers := []\<rparr>)))"
    using cv tv by blast
  have t: "timers ?W = []"
    unfolding kv by (simp add: ev)
  have q: "\<not> queued (closures ?W 0)"
    unfolding kv by (simp add: ev)
  have cs: "calls ?W = [(0, Ref 7, [Num 5])]"
    unfolding kv by (simp add: ev)
  have fi: "fire ?W 0 = [(0, Ref 7, [Num 5])]"
    unfolding kv by (simp add: ev fire_def)
  note c = debounce_coalesces [where w = ?W and i = 0 and n = 2 and ds = "[]" and t = Undefined
      and f = ?f and j = 0 and rest = "[]"]
  have b: "?B = (setQueued 0 True ?W)\<lparr>timers := timers ?W @ [0]\<rparr>"
    using c q by blast
  have b': "timers ?B = [0]"
    by (simp only: b t) simp
  have m: "count_list (timers ?B) 0 = 1"
    using c r by blast
  have "calls ?B = calls ?W"
    using c by blast
  then have cb: "calls ?B = [(0, Ref 7, [Num 5])]"
    by (simp only: cs)
  have "calls (tick ?B) = calls ?W @ fire ?W 0"
    using c t q by blast
  then have ct: "calls (tick ?B) = [(0, Ref 7, [Num 5]), (0, Ref 7, [Num 5])]"
    by (simp only: cs fi append.simps)
  have z: "(debounced 0 ^^ Suc 2) ?V = ?V"
    using cv q' by blast
  from r t q cs b' m cb ct tv q' z show ?thesis
    by blast
qed

section \<open>when\<close>

text \<open>
  C1. Each run of the function that \<open>when\<close> wraps reads the current value of every
  dependency, in the order of the dependency list (the reads are those of \<open>get\<close>). If
  none of the values is \<open>undefined\<close> or \<open>null\<close>, it calls \<open>fn.apply(thisArg, args)\<close>
  with exactly these values, once; otherwise it calls nothing, changes nothing and
  completes normally.
\<close>

theorem resolver_calls_iff_all_defined:
  "(let c = closures w i;
        args = map (\<lambda>dependency. get dependency w) (dependencies c)
    in if \<forall>d\<in>set args. d \<noteq> Undefined \<and> d \<noteq> Null
       then resolver i w = exec (fn c (thisArg c) args) (w\<lparr>calls := calls w @ [(i, thisArg c, args)]\<rparr>)
          \<and> calls (snd (resolver i w)) = calls w @ [(i, thisArg c, args)]
       else resolver i w = (Normal, w))"
proof -
  have g: "map (\<lambda>dependency. get dependency w) ds = map (values_at w) ds" for ds
    by (simp add: get_def)
  show ?thesis
    by (simp add: Let_def g resolver_def allAreDefined_iff calls_exec)
qed

theorem resolver_calls_iff_all_defined_witness:
  "calls (snd (resolver 0 (snd (when' (Array [''a'', ''b'']) (\<lambda>_ _. Return) (Ref 7)
       (store ''b'' (Num 2) (store ''a'' (Num 1) Model)))))) = [(0, Ref 7, [Num 1, Num 2])]
   \<and> resolver 0 (snd (when' (Array [''a'', ''b'']) (\<lambda>_ _. Return) (Ref 7) (store ''a'' Null Model)))
       = (Normal, snd (when' (Array [''a'', ''b'']) (\<lambda>_ _. Return) (Ref 7) (store ''a'' Null Model)))"
  using resolver_calls_iff_all_defined [of "snd (when' (Array [''a'', ''b'']) (\<lambda>_ _. Return) (Ref 7)
       (store ''b'' (Num 2) (store ''a'' (Num 1) Model)))" 0]
    resolver_calls_iff_all_defined [of "snd (when' (Array [''a'', ''b'']) (\<lambda>_ _. Return) (Ref 7)
       (store ''a'' Null Model))" 0]
  by (simp add: ev)

text \<open>
  What \<open>when\<close> does in general. It turns a single name into a one-element list and
  leaves an array as it is. It makes one closure with \<open>debounce\<close> and calls its trigger
  once, which appends one task to the timer queue. If it completes, it has appended this
  same closure to the listeners of every name of the list; the closure is new, so it was
  no listener before. If nothing else is pending and every dependency is defined, the
  next turn calls the callback with the values of the dependencies and the given
  receiver. From a reachable state in which every dependency is defined, if no callback
  calls \<open>set\<close> or \<open>when\<close>, then once the tasks pending at the registration and the
  new one have run, and for any number of turns after that, the callback has been called
  exactly once, with these values.
\<close>

lemma when_registers_when_completed:
  "(let i = nclosures w; ds = normalize d; w1 = snd (when' d f t w);
        args = map (\<lambda>k. get k w) ds
    in normalize (Name x) = [x] \<and> normalize (Array xs) = xs
     \<and> closures w1 i = \<lparr>dependencies = ds, fn = f, thisArg = t, queued = True\<rparr>
     \<and> timers w1 = timers w @ [i]
     \<and> (fst (when' d f t w) = Normal \<longrightarrow> (\<forall>k\<in>set ds. i \<in> set (listeners w1 k)))
     \<and> (reachable w \<longrightarrow> (\<forall>k. i \<notin> set (listeners w k)))
     \<and> (timers w = [] \<and> (\<forall>v\<in>set args. v \<noteq> Undefined \<and> v \<noteq> Null) \<longrightarrow>
          calls (tick w1) = calls w @ [(i, t, args)])
     \<and> (reachable w \<and> all_silent w \<and> silent f
          \<and> (\<forall>v\<in>set args. v \<noteq> Undefined \<and> v \<noteq> Null) \<longrightarrow>
          (\<forall>n. calls_of i (run (replicate (Suc (length (timers w)) + n) Tick) w1) = [(i, t, args)])))"
proof -
  define i where "i = nclosures w"
  define ds where "ds = normalize d"
  define w1 where "w1 = snd (when' d f t w)"
  define args where "args = map (\<lambda>k. get k w) ds"
  define u where "u = setQueued i False (w1\<lparr>timers := []\<rparr>)"
  note fr = when_frame [of d f t w]
  have 1: "normalize (Name x) = [x] \<and> normalize (Array xs) = xs"
    by (simp add: normalize_def)
  have 2: "closures w1 i = \<lparr>dependencies = ds, fn = f, thisArg = t, queued = True\<rparr>"
    using fr by (simp add: w1_def i_def ds_def)
  have 3: "timers w1 = timers w @ [i]"
    using fr by (simp add: w1_def i_def)
  have 4: "\<forall>k\<in>set ds. i \<in> set (listeners w1 k)" if n: "fst (when' d f t w) = Normal"
  proof
    fix k assume k: "k \<in> set ds"
    have "when' d f t w = (Normal, w1)"
      using n by (simp add: w1_def prod_eq_iff)
    then have "listeners w1 k = listeners w k @ replicate (count_list ds k) i"
      unfolding ds_def i_def by (rule when_listeners)
    moreover have "count_list ds k \<noteq> 0"
      using k by (simp add: count_list_0_iff)
    ultimately show "i \<in> set (listeners w1 k)"
      by simp
  qed
  have 5: "\<forall>k. i \<notin> set (listeners w k)" if "reachable w"
    using reachable_heap_ok [OF that] by (simp add: heap_ok_def fresh_not_listener i_def)
  have res: "resolver i u = exec (f t args) (u\<lparr>calls := calls w @ [(i, t, args)]\<rparr>)"
    if "\<forall>v\<in>set args. v \<noteq> Undefined \<and> v \<noteq> Null"
    using resolver_after_when [where d = d and w = w and f = f and t = t] that
    by (simp add: u_def i_def w1_def args_def ds_def)
  have tk: "tick w1 = snd (resolver i u)" if "timers w = []"
    using tick_after_when [OF that, of d f t] by (simp add: u_def i_def w1_def)
  have 6: "calls (tick w1) = calls w @ [(i, t, args)]"
    if e: "timers w = []" and a: "\<forall>v\<in>set args. v \<noteq> Undefined \<and> v \<noteq> Null"
    by (simp add: tk [OF e] res [OF a] calls_exec)
  have 7: "\<forall>n. calls_of i (run (replicate (Suc (length (timers w)) + n) Tick) w1) = [(i, t, args)]"
    if r: "reachable w" and s: "all_silent w" and sf: "silent f"
      and a: "\<forall>v\<in>set args. v \<noteq> Undefined \<and> v \<noteq> Null"
  proof
    fix n
    have a': "\<forall>v\<in>set (map (\<lambda>k. get k w) (normalize d)). v \<noteq> Undefined \<and> v \<noteq> Null"
      using a by (simp add: args_def ds_def)
    show "calls_of i (run (replicate (Suc (length (timers w)) + n) Tick) w1) = [(i, t, args)]"
      using when_then_drain [OF r s sf a', where t = t and n = n]
      by (simp add: i_def w1_def args_def ds_def)
  qed
  from 1 2 3 4 5 6 7 show ?thesis
    unfolding Let_def i_def [symmetric] ds_def [symmetric] w1_def [symmetric] args_def [symmetric]
    by blast
qed

text \<open>
  C5. \<open>when\<close> does not register its closure on every name of the list. With the
  dependencies \<open>a\<close>, \<open>toString\<close>, \<open>b\<close> on a new model, \<open>on\<close> appends the closure to
  the listeners of \<open>a\<close>, then finds the function inherited under
  \<open>callbacks["toString"]\<close>, calls its missing \<open>push\<close> and throws; the loop ends there.
  The closure is a listener of \<open>a\<close> only: \<open>callbacks\<close> has no array for \<open>toString\<close>
  and none for \<open>b\<close>, and once the first task has run, a \<open>set\<close> of \<open>b\<close> schedules
  nothing, while a \<open>set\<close> of \<open>a\<close> does.
\<close>

theorem when_stops_at_inherited_name:
  "fst (when' (Array [''a'', ''toString'', ''b'']) (\<lambda>_ _. Return) Undefined Model) = TypeError
   \<and> timers (snd (when' (Array [''a'', ''toString'', ''b'']) (\<lambda>_ _. Return) Undefined Model)) = [0]
   \<and> listeners (snd (when' (Array [''a'', ''toString'', ''b'']) (\<lambda>_ _. Return) Undefined Model)) ''a'' = [0]
   \<and> callbacks (snd (when' (Array [''a'', ''toString'', ''b'']) (\<lambda>_ _. Return) Undefined Model)) ''toString''
       = None
   \<and> callbacks (snd (when' (Array [''a'', ''toString'', ''b'']) (\<lambda>_ _. Return) Undefined Model)) ''b'' = None
   \<and> listeners (snd (when' (Array [''a'', ''toString'', ''b'']) (\<lambda>_ _. Return) Undefined Model)) ''b'' = []
   \<and> timers (snd (set' (Key ''b'') (Num 2)
        (tick (snd (when' (Array [''a'', ''toString'', ''b'']) (\<lambda>_ _. Return) Undefined Model))))) = []
   \<and> timers (snd (set' (Key ''a'') (Num 1)
        (tick (snd (when' (Array [''a'', ''toString'', ''b'']) (\<lambda>_ _. Return) Undefined Model))))) = [0]"
  by (simp add: ev)



text \<open>
  When \<open>when\<close> is given an array in which a name occurs several times and completes,
  its one new closure stands in the listener array of that name once per occurrence,
  after the listeners that were there. A \<open>set\<close> of the name then calls the trigger of
  the closure that many times in one round. Whatever happens afterwards, a \<open>set\<close>
  leaves at most one task of the closure in the timer queue, and a turn of the event
  loop makes at most one call of a callback.
\<close>

lemma duplicates_when_completed:
  assumes r: "reachable w" and n: "when' (Array ds) f t w = (Normal, w1)"
  shows "(\<forall>k. listeners w1 k = listeners w k @ replicate (count_list ds k) (nclosures w))
    \<and> (\<forall>k. count_list (listeners w1 k) (nclosures w) = count_list ds k)
    \<and> (\<forall>k v. snd (set' (Key k) v w1) = fold debounced (listeners w1 k) (store k v w1))
    \<and> (\<forall>ops k v. count_list (timers (snd (set' (Key k) v (run ops w1)))) (nclosures w) \<le> 1)
    \<and> (\<forall>u. length (calls (tick u)) \<le> Suc (length (calls u)))"
proof -
  have 1: "listeners w1 k = listeners w k @ replicate (count_list ds k) (nclosures w)" for k
    using when_listeners [OF n, of k] by (simp add: normalize_def)
  have "nclosures w \<notin> set (listeners w k)" for k
    using reachable_heap_ok [OF r] by (simp add: heap_ok_def fresh_not_listener)
  then have 2: "count_list (listeners w1 k) (nclosures w) = count_list ds k" for k
    by (simp add: 1 count_list_replicate)
  have 3: "snd (set' (Key k) v w1) = fold debounced (listeners w1 k) (store k v w1)" for k v
    by (simp add: set'_def setKeyValue_state)
  have "reachable (step (When (Array ds) f t) w)"
    using r by (rule reachable_step)
  then have "reachable w1"
    using n by simp
  then have "reachable (step (Set (Key k) v) (run ops w1))" for ops k v
    by (intro reachable_step reachable_run)
  then have "heap_ok (step (Set (Key k) v) (run ops w1))" for ops k v
    by (rule reachable_heap_ok)
  then have "pending_ok (snd (set' (Key k) v (run ops w1)))" for ops k v
    by (simp add: heap_ok_def)
  then have 4: "count_list (timers (snd (set' (Key k) v (run ops w1)))) (nclosures w) \<le> 1" for ops k v
    by (rule pending_ok_le)
  from 1 2 3 4 calls_tick show ?thesis
    by blast
qed

text \<open>
  C10. The closure is not appended once per occurrence of a name. With the dependencies
  \<open>a\<close>, \<open>toString\<close>, \<open>a\<close> on a new model, \<open>on\<close> throws at \<open>toString\<close> and the
  second \<open>a\<close> is never reached: the name occurs twice and the closure stands once in
  its listener array, so a \<open>set\<close> of \<open>a\<close> calls the trigger once. With the
  dependencies \<open>valueOf\<close>, \<open>valueOf\<close> the first \<open>on\<close> throws and the closure is
  appended nowhere.
\<close>

theorem duplicate_dependency_lost_at_inherited_name:
  "fst (when' (Array [''a'', ''toString'', ''a'']) (\<lambda>_ _. Return) Undefined Model) = TypeError
   \<and> count_list [''a'', ''toString'', ''a''] ''a'' = 2
   \<and> listeners (snd (when' (Array [''a'', ''toString'', ''a'']) (\<lambda>_ _. Return) Undefined Model)) ''a'' = [0]
   \<and> fst (when' (Array [''valueOf'', ''valueOf'']) (\<lambda>_ _. Return) Undefined Model) = TypeError
   \<and> count_list [''valueOf'', ''valueOf''] ''valueOf'' = 2
   \<and> callbacks (snd (when' (Array [''valueOf'', ''valueOf'']) (\<lambda>_ _. Return) Undefined Model)) = Map.empty
   \<and> listeners (snd (when' (Array [''valueOf'', ''valueOf'']) (\<lambda>_ _. Return) Undefined Model)) ''valueOf''
       = []"
  by (simp add: ev)

section \<open>The listener registry\<close>

text \<open>
  C9. In every reachable state each property name present in \<open>callbacks\<close> holds a
  non-empty array of listeners. No operation removes a listener: one step of the
  program only extends the arrays at their ends. A registration by \<open>on\<close> that completes
  leaves the array of its key with the new listener appended, whether the array existed
  or was created by this call.
\<close>

theorem registry_entries_nonempty:
  "reachable w \<Longrightarrow>
     (\<forall>k ls. callbacks w k = Some ls \<longrightarrow> ls \<noteq> []) \<and>
     (\<forall>x k. \<exists>ys. listeners (step x w) k = listeners w k @ ys) \<and>
     (\<forall>key cb. fst (on key cb w) = Normal \<longrightarrow>
        callbacks (snd (on key cb w)) key = Some (listeners w key @ [cb]))"
proof -
  assume r: "reachable w"
  have 1: "\<forall>k ls. callbacks w k = Some ls \<longrightarrow> ls \<noteq> []"
    using reachable_registry_ok [OF r] by (simp add: registry_ok_def)
  have 2: "\<forall>x k. \<exists>ys. listeners (step x w) k = listeners w k @ ys"
    using extends_step [OF extends_refl, of w] by (simp add: extends_def)
  have 3: "\<forall>key cb. fst (on key cb w) = Normal \<longrightarrow>
        callbacks (snd (on key cb w)) key = Some (listeners w key @ [cb])"
    by (simp add: on_def listeners_def callbacks_at_def Let_def split: option.splits)
  from 1 2 3 show ?thesis by blast
qed

theorem registry_entries_nonempty_witness:
  "reachable (step (When (Array [''a'', ''b'']) (\<lambda>_ _. Return) Undefined) Model)
   \<and> callbacks (step (When (Array [''a'', ''b'']) (\<lambda>_ _. Return) Undefined) Model) ''a'' = Some [0]
   \<and> [0::nat] \<noteq> []
   \<and> fst (on ''a'' 1 (step (When (Array [''a'', ''b'']) (\<lambda>_ _. Return) Undefined) Model)) = Normal
   \<and> callbacks (snd (on ''a'' 1 (step (When (Array [''a'', ''b'']) (\<lambda>_ _. Return) Undefined) Model)))
        ''a'' = Some [0, 1]"
proof -
  let ?W = "step (When (Array [''a'', ''b'']) (\<lambda>_ _. Return) Undefined) Model"
  have r: "reachable ?W"
    by (intro reachable_step reachable_Model)
  have c: "callbacks ?W ''a'' = Some [0]"
    by (simp add: ev)
  have n: "fst (on ''a'' 1 ?W) = Normal"
    by (simp add: ev)
  have l: "listeners ?W ''a'' = [0]"
    by (simp add: ev)
  have "callbacks (snd (on ''a'' 1 ?W)) ''a'' = Some (listeners ?W ''a'' @ [1])"
    using registry_entries_nonempty [OF r] n by blast
  then have o: "callbacks (snd (on ''a'' 1 ?W)) ''a'' = Some [0, 1]"
    by (simp only: l append.simps)
  from c r n o show ?thesis
    by simp
qed

end
